theory Spec2Isabelle
  imports Complex_Main
begin

section \<open>Python and NumPy primitives used by \<open>mne/preprocessing/ecg.py\<close>\<close>

text \<open>
  Samples, thresholds and rates are floating-point numbers in the source. They are
  embedded as \<^typ>\<open>real\<close>: comparisons are exact, arithmetic is exact (no rounding,
  no NaN, no infinities). Integers are Python's unbounded integers, \<^typ>\<open>int\<close>.
  Every exception the source can raise is a value of \<open>error\<close>.
\<close>

datatype value_error =
  Bad_threshold | Zero_size_reduction | Empty_argmax | Empty_argmin | Broadcast

datatype error = ValueError value_error | IndexError | AssertionError | ZeroDivisionError

text \<open>Python's \<open>round(x)\<close> on a float: to the nearest integer, ties to the even one.\<close>

definition py_round :: "real \<Rightarrow> int" where
  "py_round x =
     (let f = \<lfloor>x\<rfloor>; d = x - of_int f
      in if d < 1 / 2 then f else if 1 / 2 < d then f + 1 else if even f then f else f + 1)"

text \<open>Python's \<open>int(x)\<close> on a float: truncation towards zero.\<close>

definition py_int :: "real \<Rightarrow> int" where
  "py_int x = (if 0 \<le> x then \<lfloor>x\<rfloor> else \<lceil>x\<rceil>)"

text \<open>Python's float division raises on a zero divisor.\<close>

definition py_div :: "real \<Rightarrow> real \<Rightarrow> error + real" where
  "py_div a b = (if b = 0 then Inl ZeroDivisionError else Inr (a / b))"

text \<open>
  Slicing \<open>xs[a:b]\<close>, \<open>xs[a:]\<close>, \<open>xs[:b]\<close>: a negative bound counts from the end,
  every bound is clamped to the sequence, an empty range gives the empty sequence.
\<close>

definition clamp_index :: "nat \<Rightarrow> int \<Rightarrow> nat" where
  "clamp_index n i = (if i < 0 then nat (max 0 (int n + i)) else min n (nat i))"

definition slice :: "'a list \<Rightarrow> int \<Rightarrow> int \<Rightarrow> 'a list" where
  "slice xs a b =
     (let lo = clamp_index (length xs) a; hi = clamp_index (length xs) b
      in take (hi - lo) (drop lo xs))"

definition slice_from :: "'a list \<Rightarrow> int \<Rightarrow> 'a list" where
  "slice_from xs a = drop (clamp_index (length xs) a) xs"

definition slice_to :: "'a list \<Rightarrow> int \<Rightarrow> 'a list" where
  "slice_to xs b = take (clamp_index (length xs) b) xs"

text \<open>Indexing \<open>xs[i]\<close> with an integer: negative indices wrap once, anything else raises.\<close>

definition py_index :: "'a list \<Rightarrow> int \<Rightarrow> error + 'a" where
  "py_index xs i =
     (let n = int (length xs)
      in if 0 \<le> i \<and> i < n then Inr (xs ! nat i)
         else if - n \<le> i \<and> i < 0 then Inr (xs ! nat (n + i))
         else Inl IndexError)"

text \<open>\<open>np.max\<close> raises on an empty array.\<close>

definition np_max :: "real list \<Rightarrow> error + real" where
  "np_max xs = (case xs of [] \<Rightarrow> Inl (ValueError Zero_size_reduction) | x # r \<Rightarrow> Inr (fold max r x))"

text \<open>\<open>np.argmax\<close> and \<open>np.argmin\<close>: the first position of the extreme value.\<close>

fun first_index :: "('a \<Rightarrow> bool) \<Rightarrow> 'a list \<Rightarrow> nat" where
  "first_index P [] = 0"
| "first_index P (x # xs) = (if P x then 0 else Suc (first_index P xs))"

definition np_argmax :: "real list \<Rightarrow> error + nat" where
  "np_argmax xs =
     (case xs of [] \<Rightarrow> Inl (ValueError Empty_argmax)
      | x # r \<Rightarrow> Inr (first_index (\<lambda>v. v = fold max r x) xs))"

definition np_argmin :: "real list \<Rightarrow> error + nat" where
  "np_argmin xs =
     (case xs of [] \<Rightarrow> Inl (ValueError Empty_argmin)
      | x # r \<Rightarrow> Inr (first_index (\<lambda>v. v = fold min r x) xs))"

text \<open>\<open>np.mean\<close>, \<open>np.std\<close> (population standard deviation) and \<open>np.median\<close>.\<close>

definition np_mean :: "real list \<Rightarrow> real" where
  "np_mean xs = sum_list xs / real (length xs)"

definition np_std :: "real list \<Rightarrow> real" where
  "np_std xs = sqrt (np_mean (map (\<lambda>x. (x - np_mean xs)\<^sup>2) xs))"

definition np_median :: "real list \<Rightarrow> real" where
  "np_median xs =
     (let s = sort xs; n = length s
      in if odd n then s ! (n div 2) else (s ! (n div 2 - 1) + s ! (n div 2)) / 2)"

text \<open>\<open>np.diff\<close>: successive differences; \<open>np.where(mask)[0]\<close>: the positions that hold.\<close>

definition np_diff :: "int list \<Rightarrow> int list" where
  "np_diff xs = map (\<lambda>(a, b). b - a) (zip xs (tl xs))"

definition np_where :: "bool list \<Rightarrow> nat list" where
  "np_where bs = filter (\<lambda>k. bs ! k) [0..<length bs]"

text \<open>\<open>np.arange(start, stop, step)\<close> has \<open>ceil((stop - start) / step)\<close> entries.\<close>

definition np_arange :: "real \<Rightarrow> real \<Rightarrow> real \<Rightarrow> real list" where
  "np_arange start stop step =
     map (\<lambda>k. start + real k * step) [0..<nat \<lceil>(stop - start) / step\<rceil>]"

section \<open>The heartbeat window: \<open>_ecg_segment_window\<close>\<close>


section \<open>The QRS detector: \<open>qrs_detector\<close>\<close>

subsection \<open>Initialisation (source lines 57 to 76)\<close>

text \<open>
  The band-pass filter \<open>filter_data\<close> belongs to another module; the detector takes it
  as the function \<open>filt\<close> from the raw signal to the filtered one.
\<close>

definition win_size_of :: "real \<Rightarrow> int" where
  "win_size_of sfreq = py_round ((60 * sfreq) / 120)"

definition init_of :: "real \<Rightarrow> int" where
  "init_of sfreq = py_int sfreq"

definition n_samples_start_of :: "real \<Rightarrow> real \<Rightarrow> int" where
  "n_samples_start_of sfreq tstart = py_int (sfreq * tstart)"

definition trimmed_ecg_abs :: "real list \<Rightarrow> real \<Rightarrow> real \<Rightarrow> real list" where
  "trimmed_ecg_abs filtecg sfreq tstart =
     slice_from (map abs filtecg) (n_samples_start_of sfreq tstart)"

definition init_max_of :: "real list \<Rightarrow> int \<Rightarrow> error + real" where
  "init_max_of ecg_abs init =
     (case np_max (slice_to ecg_abs init) of Inl e \<Rightarrow> Inl e | Inr m0 \<Rightarrow>
      (case np_max (slice ecg_abs init (init * 2)) of Inl e \<Rightarrow> Inl e | Inr m1 \<Rightarrow>
       (case np_max (slice ecg_abs (init * 2) (init * 3)) of Inl e \<Rightarrow> Inl e | Inr m2 \<Rightarrow>
          Inr (np_mean [m0, m1, m2]))))"

subsection \<open>Threshold candidates (source lines 78 to 83)\<close>

datatype thresh_spec = Str string | Num real

definition thresh_runs_of :: "thresh_spec \<Rightarrow> error + real list" where
  "thresh_runs_of thresh_value =
     (if thresh_value = Str ''auto'' then Inr (np_arange 0.3 1.1 0.05)
      else (case thresh_value of
              Str s \<Rightarrow> Inl (ValueError Bad_threshold)
            | Num v \<Rightarrow> Inr [v]))"

subsection \<open>The scan of one candidate (source lines 88 to 104)\<close>

record scan_lists =
  time :: "int list"
  numcross :: "int list"
  rms :: "real list"

text \<open>
  Modelled from the spec: \<open>sum_squared\<close> lives in \<open>mne/utils\<close>, which is not among the
  sources; the spec calls the recorded quantity the root-mean-square amplitude of the
  window, so \<open>sum_squared\<close> is the sum of the squares.
\<close>

definition sum_squared :: "real list \<Rightarrow> real" where
  "sum_squared xs = sum_list (map (\<lambda>x. x * x) xs)"

definition window_rms :: "real list \<Rightarrow> real" where
  "window_rms window = sqrt (sum_squared window / real (length window))"

text \<open>
  \<open>nx = np.sum(np.diff(((window > thresh1).astype(np.int64) == 1).astype(int)))\<close>,
  conversion by conversion.
\<close>

definition astype_int :: "bool list \<Rightarrow> int list" where
  "astype_int bs = map (\<lambda>b. if b then 1 else 0) bs"

definition window_nx :: "real list \<Rightarrow> real \<Rightarrow> int" where
  "window_nx window thresh1 =
     sum_list (np_diff (astype_int (map (\<lambda>i. i = 1)
       (astype_int (map (\<lambda>v. v > thresh1) window)))))"

lemma clamp_index_le: "clamp_index n i \<le> n"
  by (auto simp: clamp_index_def)

lemma slice_nonempty_bounds:
  assumes "slice xs a b \<noteq> []"
  shows "clamp_index (length xs) a < clamp_index (length xs) b"
    and "clamp_index (length xs) a < length xs"
proof -
  from assms show "clamp_index (length xs) a < clamp_index (length xs) b"
    by (auto simp: slice_def Let_def)
  with clamp_index_le [of "length xs" b] show "clamp_index (length xs) a < length xs"
    by linarith
qed

lemma slice_nonempty_cases:
  assumes "slice xs ii (ii + w) \<noteq> []"
  shows "0 < w \<or> (0 \<le> ii \<and> ii + w < 0)"
proof (rule ccontr)
  assume neg: "\<not> (0 < w \<or> (0 \<le> ii \<and> ii + w < 0))"
  have "clamp_index (length xs) (ii + w) \<le> clamp_index (length xs) ii"
    using neg by (auto simp: clamp_index_def)
  with slice_nonempty_bounds(1) [OF assms] show False by simp
qed

function scan :: "real list \<Rightarrow> int \<Rightarrow> real \<Rightarrow> int \<Rightarrow> scan_lists \<Rightarrow> error + scan_lists" where
  "scan ecg_abs win_size thresh1 ii st =
     (if ii < int (length ecg_abs) - win_size then
        (case slice ecg_abs ii (ii + win_size) of
           [] \<Rightarrow> Inl IndexError
         | w0 # rest \<Rightarrow>
             (if w0 > thresh1 then
                (case np_argmax (w0 # rest) of
                   Inl e \<Rightarrow> Inl e
                 | Inr max_time \<Rightarrow>
                     scan ecg_abs win_size thresh1 (ii + win_size)
                       (st\<lparr>time := time st @ [ii + int max_time],
                           numcross := numcross st @ [window_nx (w0 # rest) thresh1],
                           rms := rms st @ [window_rms (w0 # rest)]\<rparr>))
              else scan ecg_abs win_size thresh1 (ii + 1) st))
      else Inr st)"
  by pat_completeness auto
termination
proof (relation "measure (\<lambda>(ecg_abs, w, th, ii, st).
         if 0 < w then nat (int (length ecg_abs) - w - ii)
         else if ii < 0 then 0 else nat (- w - ii) + 1)")
  show "wf (measure (\<lambda>(ecg_abs, w, th, ii, st).
         if 0 < w then nat (int (length ecg_abs) - w - ii)
         else if ii < 0 then 0 else nat (- w - ii) + 1))"
    by simp
next
  fix ecg_abs :: "real list" and win_size :: int and thresh1 :: real and ii :: int
    and st :: scan_lists and w0 rest max_time
  assume "ii < int (length ecg_abs) - win_size"
    and "slice ecg_abs ii (ii + win_size) = w0 # rest"
  then show "((ecg_abs, win_size, thresh1, ii + win_size,
        st\<lparr>time := time st @ [ii + int max_time],
           numcross := numcross st @ [window_nx (w0 # rest) thresh1],
           rms := rms st @ [window_rms (w0 # rest)]\<rparr>),
       ecg_abs, win_size, thresh1, ii, st)
      \<in> measure (\<lambda>(ecg_abs, w, th, ii, st).
         if 0 < w then nat (int (length ecg_abs) - w - ii)
         else if ii < 0 then 0 else nat (- w - ii) + 1)"
    using slice_nonempty_cases [of ecg_abs ii win_size] by auto
next
  fix ecg_abs :: "real list" and win_size :: int and thresh1 :: real and ii :: int
    and st :: scan_lists and w0 rest
  assume "ii < int (length ecg_abs) - win_size"
    and "slice ecg_abs ii (ii + win_size) = w0 # rest"
  then show "((ecg_abs, win_size, thresh1, ii + 1, st), ecg_abs, win_size, thresh1, ii, st)
      \<in> measure (\<lambda>(ecg_abs, w, th, ii, st).
         if 0 < w then nat (int (length ecg_abs) - w - ii)
         else if ii < 0 then 0 else nat (- w - ii) + 1)"
    using slice_nonempty_cases [of ecg_abs ii win_size] by auto
qed

declare scan.simps [simp del]

subsection \<open>Outlier rejection of one candidate (source lines 106 to 117)\<close>

text \<open>
  \<open>np.array(time)\<close> is an integer array when the scan recorded peaks; after
  \<open>time.append(0.0)\<close> it is a floating-point array. The element type matters to
  the caller, which uses the result as an index array.
\<close>

datatype ndarray = IntArray "int list" | FloatArray "real list"

fun arr_len :: "ndarray \<Rightarrow> nat" where
  "arr_len (IntArray xs) = length xs"
| "arr_len (FloatArray xs) = length xs"

text \<open>Indexing an array by an array of positions raises when a position is out of range.\<close>

definition np_take :: "'a list \<Rightarrow> nat list \<Rightarrow> error + 'a list" where
  "np_take xs idx =
     (if list_all (\<lambda>k. k < length xs) idx then Inr (map (\<lambda>k. xs ! k) idx) else Inl IndexError)"

fun arr_take :: "ndarray \<Rightarrow> nat list \<Rightarrow> error + ndarray" where
  "arr_take (IntArray xs) idx = map_sum id IntArray (np_take xs idx)"
| "arr_take (FloatArray xs) idx = map_sum id FloatArray (np_take xs idx)"

fun arr_add :: "ndarray \<Rightarrow> int \<Rightarrow> ndarray" where
  "arr_add (IntArray xs) n = IntArray (map (\<lambda>x. x + n) xs)"
| "arr_add (FloatArray xs) n = FloatArray (map (\<lambda>x. x + of_int n) xs)"

text \<open>Indexing by a boolean mask of the same length keeps the entries the mask selects.\<close>

definition mask_select :: "'a list \<Rightarrow> bool list \<Rightarrow> 'a list" where
  "mask_select xs bs = map fst (filter snd (zip xs bs))"

text \<open>
  Source lines 106 to 109: with no peak recorded, \<open>rms\<close> and \<open>time\<close> each get one
  entry \<open>0.0\<close> (and \<open>numcross\<close> none); \<open>time\<close> becomes an array.
\<close>

definition fill_empty :: "scan_lists \<Rightarrow> ndarray \<times> int list \<times> real list" where
  "fill_empty st =
     (if length (rms st) = 0
      then (FloatArray (map of_int (time st) @ [0]), numcross st, rms st @ [0])
      else (IntArray (time st), numcross st, rms st))"

definition rms_thresh_of :: "real list \<Rightarrow> real \<Rightarrow> real" where
  "rms_thresh_of rms1 levels =
     (let rms_mean = np_mean rms1; rms_std = np_std rms1 in rms_mean + (rms_std * levels))"

definition clean_candidate :: "scan_lists \<Rightarrow> real \<Rightarrow> int \<Rightarrow> int \<Rightarrow> error + ndarray" where
  "clean_candidate st levels n_thresh n_samples_start =
     (case fill_empty st of (time1, numcross1, rms1) \<Rightarrow>
        (let rms_thresh = rms_thresh_of rms1 levels;
             b = np_where (map (\<lambda>r. r < rms_thresh) rms1)
         in case np_take numcross1 b of
              Inl e \<Rightarrow> Inl e
            | Inr a \<Rightarrow>
                (case arr_take time1 (mask_select b (map (\<lambda>x. x < n_thresh) a)) of
                   Inl e \<Rightarrow> Inl e
                 | Inr ce \<Rightarrow> Inr (arr_add ce n_samples_start))))"

subsection \<open>The loop over the candidates (source lines 86 to 118)\<close>

definition run_threshold ::
  "real list \<Rightarrow> int \<Rightarrow> real \<Rightarrow> real \<Rightarrow> int \<Rightarrow> int \<Rightarrow> real \<Rightarrow> error + ndarray" where
  "run_threshold ecg_abs win_size init_max levels n_thresh n_samples_start thresh_value =
     (let thresh1 = init_max * thresh_value
      in case scan ecg_abs win_size thresh1 0 \<lparr>time = [], numcross = [], rms = []\<rparr> of
           Inl e \<Rightarrow> Inl e
         | Inr st \<Rightarrow> clean_candidate st levels n_thresh n_samples_start)"

fun run_thresholds ::
  "real list \<Rightarrow> int \<Rightarrow> real \<Rightarrow> real \<Rightarrow> int \<Rightarrow> int \<Rightarrow> real list \<Rightarrow> ndarray list
     \<Rightarrow> error + ndarray list" where
  "run_thresholds ecg_abs win_size init_max levels n_thresh n_samples_start [] clean_events =
     Inr clean_events"
| "run_thresholds ecg_abs win_size init_max levels n_thresh n_samples_start (tv # tvs) clean_events =
     (case run_threshold ecg_abs win_size init_max levels n_thresh n_samples_start tv of
        Inl e \<Rightarrow> Inl e
      | Inr ce \<Rightarrow>
          run_thresholds ecg_abs win_size init_max levels n_thresh n_samples_start tvs
            (clean_events @ [ce]))"

subsection \<open>Choice of the best candidate (source lines 120 to 132)\<close>

fun effective_rates :: "ndarray list \<Rightarrow> nat \<Rightarrow> real \<Rightarrow> error + real list" where
  "effective_rates [] n_ecg sfreq = Inr []"
| "effective_rates (cev # cevs) n_ecg sfreq =
     (case py_div (real n_ecg) sfreq of Inl e \<Rightarrow> Inl e | Inr dur \<Rightarrow>
      (case py_div (60 * real (arr_len cev)) dur of Inl e \<Rightarrow> Inl e | Inr r \<Rightarrow>
       (case effective_rates cevs n_ecg sfreq of Inl e \<Rightarrow> Inl e | Inr rs \<Rightarrow> Inr (r # rs))))"

definition ideal_rate_of :: "real list \<Rightarrow> real" where
  "ideal_rate_of rates =
     (let idx = np_where (map (\<lambda>r. r \<le> 160 \<and> r \<ge> 40) rates)
      in if length idx > 0 then np_median (map (\<lambda>k. rates ! k) idx) else 80)"

definition pick_best :: "ndarray list \<Rightarrow> nat \<Rightarrow> real \<Rightarrow> error + ndarray" where
  "pick_best clean_events n_ecg sfreq =
     (case effective_rates clean_events n_ecg sfreq of
        Inl e \<Rightarrow> Inl e
      | Inr rates \<Rightarrow>
          (let ideal_rate = ideal_rate_of rates
           in case np_argmin (map (\<lambda>r. \<bar>r - ideal_rate\<bar>) rates) of
                Inl e \<Rightarrow> Inl e
              | Inr idx \<Rightarrow> Inr (clean_events ! idx)))"

subsection \<open>The detector\<close>

definition qrs_detector ::
  "(real list \<Rightarrow> real list) \<Rightarrow> real \<Rightarrow> real list \<Rightarrow> thresh_spec \<Rightarrow> real \<Rightarrow> int \<Rightarrow> real
     \<Rightarrow> error + ndarray" where
  "qrs_detector filt sfreq ecg thresh_value levels n_thresh tstart =
     (let win_size = win_size_of sfreq;
          filtecg = filt ecg;
          init = init_of sfreq;
          n_samples_start = n_samples_start_of sfreq tstart;
          ecg_abs = trimmed_ecg_abs filtecg sfreq tstart
      in case init_max_of ecg_abs init of
           Inl e \<Rightarrow> Inl e
         | Inr init_max \<Rightarrow>
             (case thresh_runs_of thresh_value of
                Inl e \<Rightarrow> Inl e
              | Inr thresh_runs \<Rightarrow>
                  (case run_thresholds ecg_abs win_size init_max levels n_thresh
                          n_samples_start thresh_runs [] of
                     Inl e \<Rightarrow> Inl e
                   | Inr clean_events \<Rightarrow> pick_best clean_events (length ecg) sfreq)))"

section \<open>The event table: \<open>find_ecg_events\<close>\<close>

text \<open>
  The recording, the choice of the channel, the usable segments
  (\<open>_annotations_starts_stops\<close>) and the filter belong to other modules. The model
  takes the channel's samples \<open>ecg\<close>, the sampling rate, \<open>raw.first_samp\<close>, the
  segments as the pairs \<open>zip(onsets, ends)\<close>, the filter applied to each segment
  (\<open>seg_filt\<close>) and the filter call inside the detector (\<open>qrs_filt\<close>, made with
  \<open>l_freq=None, h_freq=None\<close>). \<open>np.empty\<close> gives an array of unspecified contents:
  \<open>junk\<close> is what each cell holds at first. With no segment at all
  \<open>(ends - onsets).argmax()\<close> raises. The result is the event table and the
  average pulse.
\<close>

definition np_empty :: "(nat \<Rightarrow> int) \<Rightarrow> nat \<Rightarrow> int list" where
  "np_empty junk n = map junk [0..<n]"

text \<open>
  \<open>arr[a:b] = vals\<close>: the values must have the length of the slice, or be a single
  value that is repeated over the slice.
\<close>

definition assign_slice :: "int list \<Rightarrow> int \<Rightarrow> int \<Rightarrow> int list \<Rightarrow> error + int list" where
  "assign_slice arr a b vals =
     (let lo = clamp_index (length arr) a; hi = clamp_index (length arr) b; m = hi - lo
      in if length vals = m then Inr (take lo arr @ vals @ drop (lo + m) arr)
         else if length vals = 1 then Inr (take lo arr @ replicate m (hd vals) @ drop (lo + m) arr)
         else Inl (ValueError Broadcast))"

text \<open>Source lines 215 to 219: the loop that fills \<open>remap\<close>.\<close>

fun remap_loop :: "(int \<times> int) list \<Rightarrow> int list \<Rightarrow> int \<Rightarrow> error + int list \<times> int" where
  "remap_loop [] remap offset = Inr (remap, offset)"
| "remap_loop ((start, stop) # rest) remap offset =
     (let this_len = stop - start
      in if \<not> this_len \<ge> 0 then Inl AssertionError
         else (case assign_slice remap offset (offset + this_len) [start..stop - 1] of
                 Inl e \<Rightarrow> Inl e
               | Inr remap' \<Rightarrow> remap_loop rest remap' (offset + this_len)))"

text \<open>
  \<open>remap[ecg_events]\<close>: an index array must hold integers; each index is looked up
  as Python does.
\<close>

fun collect :: "(error + 'a) list \<Rightarrow> error + 'a list" where
  "collect [] = Inr []"
| "collect (r # rs) =
     (case r of Inl e \<Rightarrow> Inl e
      | Inr v \<Rightarrow> (case collect rs of Inl e \<Rightarrow> Inl e | Inr vs \<Rightarrow> Inr (v # vs)))"

definition index_by :: "int list \<Rightarrow> ndarray \<Rightarrow> error + int list" where
  "index_by arr idx =
     (case idx of
        FloatArray fs \<Rightarrow> Inl IndexError
      | IntArray is \<Rightarrow> collect (map (py_index arr) is))"

definition find_ecg_events ::
  "(real list \<Rightarrow> real list) \<Rightarrow> (real list \<Rightarrow> real list) \<Rightarrow> (nat \<Rightarrow> int) \<Rightarrow> real list \<Rightarrow> real
     \<Rightarrow> int \<Rightarrow> (int \<times> int) list \<Rightarrow> int \<Rightarrow> real \<Rightarrow> thresh_spec
     \<Rightarrow> error + (int \<times> int \<times> int) list \<times> real" where
  "find_ecg_events seg_filt qrs_filt junk ecg sfreq first_samp segments event_id tstart
       qrs_threshold =
     (case segments of
        [] \<Rightarrow> Inl (ValueError Empty_argmax)
      | seg # segs \<Rightarrow>
          (let ecgs = map (\<lambda>(start, stop). seg_filt (slice ecg start stop)) segments;
               ecg1 = concat ecgs
           in case qrs_detector qrs_filt sfreq ecg1 qrs_threshold 2.5 3 tstart of
                Inl e \<Rightarrow> Inl e
              | Inr ecg_events \<Rightarrow>
                  (case remap_loop segments (np_empty junk (length ecg1)) 0 of
                     Inl e \<Rightarrow> Inl e
                   | Inr (remap, offset) \<Rightarrow>
                       (if offset \<noteq> int (length ecg1) then Inl AssertionError
                        else (case index_by remap ecg_events of
                                Inl e \<Rightarrow> Inl e
                              | Inr mapped \<Rightarrow>
                                  (let n_events = length mapped
                                   in case py_div (real (length ecg1)) sfreq of
                                        Inl e \<Rightarrow> Inl e
                                      | Inr secs \<Rightarrow>
                                          (let duration_sec = secs - tstart;
                                               duration_min = duration_sec / 60
                                           in case py_div (real n_events) duration_min of
                                                Inl e \<Rightarrow> Inl e
                                              | Inr average_pulse \<Rightarrow>
                                                  Inr (map (\<lambda>e. (e + first_samp, 0, event_id)) mapped,
                                                       average_pulse))))))))"

section \<open>The quantities of the specification\<close>

text \<open>
  The definitions of this section follow the words of the specification, not the
  source; the properties below relate the embedded source to them.
\<close>

text \<open>The recurrence in the words of the specification.\<close>

definition window_argmax :: "real list \<Rightarrow> nat" where
  "window_argmax win = first_index (\<lambda>v. list_all (\<lambda>u. u \<le> v) win) win"

function peak_positions :: "real list \<Rightarrow> nat \<Rightarrow> real \<Rightarrow> nat \<Rightarrow> nat list" where
  "peak_positions signal w thr i =
     (if 0 < w \<and> i + w < length signal then
        (if signal ! i \<le> thr then peak_positions signal w thr (i + 1)
         else (i + window_argmax (take w (drop i signal))) # peak_positions signal w thr (i + w))
      else [])"
  by pat_completeness auto
termination
  by (relation "measure (\<lambda>(signal, w, thr, i). length signal - i)") auto

declare peak_positions.simps [simp del]

text \<open>The positions at which the scan opens a window.\<close>

function window_starts :: "real list \<Rightarrow> nat \<Rightarrow> real \<Rightarrow> nat \<Rightarrow> nat list" where
  "window_starts signal w thr i =
     (if 0 < w \<and> i + w < length signal then
        (if signal ! i \<le> thr then window_starts signal w thr (i + 1)
         else i # window_starts signal w thr (i + w))
      else [])"
  by pat_completeness auto
termination
  by (relation "measure (\<lambda>(signal, w, thr, i). length signal - i)") auto

declare window_starts.simps [simp del]

text \<open>The rising edges of the above-threshold mask, in the words of the specification.\<close>

definition rising_edges :: "real list \<Rightarrow> real \<Rightarrow> nat" where
  "rising_edges window thr =
     (let above = map (\<lambda>v. v > thr) window
      in length (filter (\<lambda>(a, b). \<not> a \<and> b) (zip above (tl above))))"

text \<open>The quantities of the selection, in the words of the specification.\<close>

definition implied_rate :: "nat \<Rightarrow> real \<Rightarrow> ndarray \<Rightarrow> real" where
  "implied_rate n_ecg sfreq cev = 60 * real (arr_len cev) / (real n_ecg / sfreq)"

definition target_rate :: "real list \<Rightarrow> real" where
  "target_rate rates =
     (let plausible = filter (\<lambda>r. 40 \<le> r \<and> r \<le> 160) rates
      in if plausible = [] then 80 else np_median plausible)"

text \<open>The index map in the words of the specification: the segments' ranges laid end to end.\<close>

definition index_map :: "(int \<times> int) list \<Rightarrow> int list" where
  "index_map segments = concat (map (\<lambda>(start, stop). [start..stop - 1]) segments)"

section \<open>Properties of the heartbeat window\<close>



section \<open>Properties of the initialisation and of the candidate set\<close>










section \<open>Properties of the scan\<close>

lemma slice_nat: "slice xs (int a) (int a + int w) = take w (drop a xs)"
proof -
  have "clamp_index (length xs) (int a) = min (length xs) a"
    by (simp add: clamp_index_def)
  moreover have "clamp_index (length xs) (int a + int w) = min (length xs) (a + w)"
    by (simp add: clamp_index_def nat_add_distrib)
  ultimately show ?thesis
    by (cases "a \<le> length xs") (simp_all add: slice_def Let_def min_def)
qed

lemma first_index_cong:
  "(\<And>x. x \<in> set xs \<Longrightarrow> P x = Q x) \<Longrightarrow> first_index P xs = first_index Q xs"
  by (induction xs) auto

lemma first_index_less: "\<exists>x \<in> set xs. P x \<Longrightarrow> first_index P xs < length xs"
  by (induction xs) auto

lemma first_index_holds: "\<exists>x \<in> set xs. P x \<Longrightarrow> P (xs ! first_index P xs)"
  by (induction xs) auto

lemma first_index_least: "k < first_index P xs \<Longrightarrow> \<not> P (xs ! k)"
proof (induction xs arbitrary: k)
  case Nil
  then show ?case by simp
next
  case (Cons x xs)
  then show ?case by (cases k) (auto split: if_splits)
qed

lemma fold_max_Max: "fold max r x = Max (set (x # r))"
  using Max.set_eq_fold [of x r] by simp

lemma fold_min_Min: "fold min r x = Min (set (x # r))"
  using Min.set_eq_fold [of x r] by simp

lemma np_argmax_window:
  "np_argmax (x # r) = Inr (window_argmax (x # r))"
proof -
  have "first_index (\<lambda>v. v = fold max r x) (x # r)
      = first_index (\<lambda>v. list_all (\<lambda>u. u \<le> v) (x # r)) (x # r)"
  proof (rule first_index_cong)
    fix v assume v: "v \<in> set (x # r)"
    have "(v = Max (set (x # r))) = (\<forall>u \<in> set (x # r). u \<le> v)"
      using v by (metis List.finite_set Max_eqI Max_ge)
    then show "(v = fold max r x) = list_all (\<lambda>u. u \<le> v) (x # r)"
      by (simp only: fold_max_Max list_all_iff)
  qed
  then show ?thesis by (simp add: np_argmax_def window_argmax_def)
qed

lemma window_argmax_less: "win \<noteq> [] \<Longrightarrow> window_argmax win < length win"
proof -
  assume "win \<noteq> []"
  then have "Max (set win) \<in> set win" by simp
  moreover have "list_all (\<lambda>u. u \<le> Max (set win)) win"
    by (simp add: list_all_iff)
  ultimately show ?thesis
    unfolding window_argmax_def by (intro first_index_less) blast
qed

lemma peak_positions_starts:
  "peak_positions signal w thr i =
     map (\<lambda>j. j + window_argmax (take w (drop j signal))) (window_starts signal w thr i)"
proof (induction signal w thr i rule: window_starts.induct)
  case (1 signal w thr i)
  show ?case
  proof (cases "0 < w \<and> i + w < length signal")
    case True
    then show ?thesis
      using 1 by (subst peak_positions.simps, subst window_starts.simps) auto
  next
    case False
    then show ?thesis
      by (subst peak_positions.simps, subst window_starts.simps) auto
  qed
qed

lemma scan_eq:
  assumes "0 < w" and "0 \<le> ii"
  shows "scan xs w th ii st =
     Inr (st\<lparr>time := time st @ map (\<lambda>j. int (j + window_argmax (take (nat w) (drop j xs))))
                  (window_starts xs (nat w) th (nat ii)),
            numcross := numcross st @ map (\<lambda>j. window_nx (take (nat w) (drop j xs)) th)
                  (window_starts xs (nat w) th (nat ii)),
            rms := rms st @ map (\<lambda>j. window_rms (take (nat w) (drop j xs)))
                  (window_starts xs (nat w) th (nat ii))\<rparr>)"
  using assms
proof (induction xs w th ii st rule: scan.induct)
  case (1 xs w th ii st)
  let ?i = "nat ii" and ?w = "nat w"
  have sl: "slice xs ii (ii + w) = take ?w (drop ?i xs)"
    using slice_nat [of xs ?i ?w] "1.prems" by simp
  show ?case
  proof (cases "ii < int (length xs) - w")
    case False
    then have "\<not> (0 < ?w \<and> ?i + ?w < length xs)" using "1.prems" by linarith
    then have "window_starts xs ?w th ?i = []"
      by (subst window_starts.simps) auto
    then show ?thesis using False by (subst scan.simps) simp
  next
    case True
    then have lt: "0 < ?w \<and> ?i + ?w < length xs" using "1.prems" by linarith
    then have ne: "take ?w (drop ?i xs) \<noteq> []" by simp
    then obtain w0 rest where win: "take ?w (drop ?i xs) = w0 # rest"
      by (cases "take ?w (drop ?i xs)") auto
    have w0: "w0 = xs ! ?i"
    proof -
      have "(take ?w (drop ?i xs)) ! 0 = xs ! ?i" using lt by simp
      then show ?thesis by (simp add: win)
    qed
    show ?thesis
    proof (cases "w0 > th")
      case det: True
      have am: "np_argmax (w0 # rest) = Inr (window_argmax (w0 # rest))"
        by (rule np_argmax_window)
      have ws: "window_starts xs ?w th ?i = ?i # window_starts xs ?w th (?i + ?w)"
        using lt det w0 by (subst window_starts.simps) simp
      have nxt: "nat (ii + w) = ?i + ?w" using "1.prems" by (simp add: nat_add_distrib)
      have ih: "scan xs w th (ii + w)
          (st\<lparr>time := time st @ [ii + int (window_argmax (w0 # rest))],
              numcross := numcross st @ [window_nx (w0 # rest) th],
              rms := rms st @ [window_rms (w0 # rest)]\<rparr>) = Inr
          ((st\<lparr>time := time st @ [ii + int (window_argmax (w0 # rest))],
              numcross := numcross st @ [window_nx (w0 # rest) th],
              rms := rms st @ [window_rms (w0 # rest)]\<rparr>)
           \<lparr>time := (time st @ [ii + int (window_argmax (w0 # rest))]) @
                 map (\<lambda>j. int (j + window_argmax (take ?w (drop j xs))))
                  (window_starts xs ?w th (?i + ?w)),
            numcross := (numcross st @ [window_nx (w0 # rest) th]) @
                 map (\<lambda>j. window_nx (take ?w (drop j xs)) th)
                  (window_starts xs ?w th (?i + ?w)),
            rms := (rms st @ [window_rms (w0 # rest)]) @
                 map (\<lambda>j. window_rms (take ?w (drop j xs)))
                  (window_starts xs ?w th (?i + ?w))\<rparr>)"
        using "1.IH"(1) [OF True _ det am] sl win "1.prems" nxt by simp
      show ?thesis
        using True det am ih ws win "1.prems"
        by (subst scan.simps) (simp add: sl)
    next
      case nodet: False
      have ws: "window_starts xs ?w th ?i = window_starts xs ?w th (?i + 1)"
        using lt nodet w0 by (subst window_starts.simps) simp
      have nxt: "nat (ii + 1) = ?i + 1" using "1.prems" by simp
      have ih: "scan xs w th (ii + 1) st =
         Inr (st\<lparr>time := time st @ map (\<lambda>j. int (j + window_argmax (take ?w (drop j xs))))
                  (window_starts xs ?w th (?i + 1)),
            numcross := numcross st @ map (\<lambda>j. window_nx (take ?w (drop j xs)) th)
                  (window_starts xs ?w th (?i + 1)),
            rms := rms st @ map (\<lambda>j. window_rms (take ?w (drop j xs)))
                  (window_starts xs ?w th (?i + 1))\<rparr>)"
        using "1.IH"(2) [OF True _ nodet] sl win "1.prems" nxt by simp
      show ?thesis
        using True nodet ih ws win
        by (subst scan.simps) (simp add: sl)
    qed
  qed
qed

lemma window_starts_bounds:
  "j \<in> set (window_starts signal w thr i) \<Longrightarrow> i \<le> j \<and> j + w < length signal \<and> 0 < w \<and> thr < signal ! j"
proof (induction signal w thr i rule: window_starts.induct)
  case (1 signal w thr i)
  from "1.prems" have c: "0 < w \<and> i + w < length signal"
    by (subst (asm) window_starts.simps) (auto split: if_splits)
  show ?case
  proof (cases "signal ! i \<le> thr")
    case True
    with c "1.prems" have "j \<in> set (window_starts signal w thr (i + 1))"
      by (subst (asm) window_starts.simps) simp
    with "1.IH"(1) [OF c True] show ?thesis by simp
  next
    case False
    with c "1.prems" have "j = i \<or> j \<in> set (window_starts signal w thr (i + w))"
      by (subst (asm) window_starts.simps) simp
    with "1.IH"(2) [OF c False] c False show ?thesis by auto
  qed
qed

lemma window_starts_spaced:
  "sorted_wrt (\<lambda>a b. a + w \<le> b) (window_starts signal w thr i)"
proof (induction signal w thr i rule: window_starts.induct)
  case (1 signal w thr i)
  show ?case
  proof (cases "0 < w \<and> i + w < length signal")
    case c: True
    show ?thesis
    proof (cases "signal ! i \<le> thr")
      case True
      with c "1.IH"(1) show ?thesis by (subst window_starts.simps) simp
    next
      case False
      have "\<forall>j \<in> set (window_starts signal w thr (i + w)). i + w \<le> j"
        using window_starts_bounds by blast
      with c False "1.IH"(2) show ?thesis by (subst window_starts.simps) simp
    qed
  next
    case False
    then show ?thesis by (subst window_starts.simps) auto
  qed
qed

lemma scan_nonpositive_window:
  assumes "w < 0" and "0 \<le> ii" and "ii \<le> - w" and "ii < - w \<or> xs \<noteq> []"
  shows "scan xs w th ii st = Inl IndexError"
  using assms
proof (induction "nat (- w - ii)" arbitrary: ii st)
  case 0
  then have ii: "ii = - w" by simp
  with 0 have ne: "xs \<noteq> []" by auto
  have "clamp_index (length xs) (ii + w) \<le> clamp_index (length xs) ii"
    using ii by (simp add: clamp_index_def)
  then have "slice xs ii (ii + w) = []" by (simp add: slice_def Let_def)
  moreover have "ii < int (length xs) - w" using ii ne by simp
  ultimately show ?case by (subst scan.simps) simp
next
  case (Suc k)
  then have lt: "ii < - w" by linarith
  then have cond: "ii < int (length xs) - w" by linarith
  show ?case
  proof (cases "slice xs ii (ii + w)")
    case Nil
    with cond show ?thesis by (subst scan.simps) simp
  next
    case (Cons w0 rest)
    then have ne: "xs \<noteq> []" by (auto simp: slice_def Let_def)
    have nxt: "scan xs w th (ii + 1) st = Inl IndexError"
      using Suc.hyps(1) [of "ii + 1" st] Suc.hyps(2) Suc.prems ne lt by simp
    have neg: "scan xs w th (ii + w) st' = Inl IndexError" for st'
    proof -
      have "clamp_index (length xs) (ii + w + w) \<le> clamp_index (length xs) (ii + w)"
        using lt Suc.prems by (auto simp: clamp_index_def)
      then have "slice xs (ii + w) (ii + w + w) = []" by (simp add: slice_def Let_def)
      moreover have "ii + w < int (length xs) - w" using lt Suc.prems by linarith
      ultimately show ?thesis by (subst scan.simps) simp
    qed
    show ?thesis
      using cond Cons nxt neg
      by (subst scan.simps) (simp add: np_argmax_window)
  qed
qed

lemma scan_zero_window:
  "scan xs 0 th 0 st = (if xs = [] then Inr st else Inl IndexError)"
  by (subst scan.simps) (simp add: slice_def Let_def)

lemma scan_returns_positive:
  assumes "scan xs w th 0 st = Inr st'"
  shows "0 < w \<or> (xs = [] \<and> w = 0 \<and> st' = st)"
proof (cases "0 < w")
  case True
  then show ?thesis by simp
next
  case False
  show ?thesis
  proof (cases "w = 0")
    case True
    with assms show ?thesis by (simp add: scan_zero_window split: if_splits)
  next
    case nz: False
    with False have neg: "w < 0" by simp
    then have "scan xs w th 0 st = Inl IndexError"
      by (intro scan_nonpositive_window) auto
    with assms show ?thesis by simp
  qed
qed

lemma peak_positions_sorted: "sorted_wrt (<) (peak_positions signal w thr i)"
proof -
  let ?f = "\<lambda>j. j + window_argmax (take w (drop j signal))"
  let ?S = "window_starts signal w thr i"
  have "sorted_wrt (\<lambda>a b. ?f a < ?f b) ?S"
  proof (rule sorted_wrt_mono_rel [OF _ window_starts_spaced])
    fix a b
    assume a: "a \<in> set ?S" and b: "b \<in> set ?S" and ab: "a + w \<le> b"
    from window_starts_bounds [OF a] have "take w (drop a signal) \<noteq> []" by auto
    from window_argmax_less [OF this] have "window_argmax (take w (drop a signal)) < w" by simp
    with ab show "?f a < ?f b" by linarith
  qed
  then show ?thesis by (simp add: peak_positions_starts sorted_wrt_map)
qed

lemma peak_positions_empty: "peak_positions [] w thr i = []"
  by (subst peak_positions.simps) simp

text \<open>
  C1. The scan of one candidate is the recurrence of the specification: from position
  0, a sample at or below the threshold moves the position by one, a sample above it
  records the position plus the place of the window maximum and moves the position by
  the window size; the scan runs while a whole window lies before the end of the
  signal. The recorded peak positions are exactly those of the recurrence and they are
  strictly increasing. With a window size above zero the scan always returns.
\<close>

theorem scan_is_recurrence:
  "(0 < win_size \<longrightarrow>
      (\<exists>st. scan ecg_abs win_size thr 0 \<lparr>time = [], numcross = [], rms = []\<rparr> = Inr st))
   \<and> (scan ecg_abs win_size thr 0 \<lparr>time = [], numcross = [], rms = []\<rparr> = Inr st \<longrightarrow>
        time st = map int (peak_positions ecg_abs (nat win_size) thr 0)
        \<and> sorted_wrt (<) (time st))"
proof (intro conjI impI)
  assume "0 < win_size"
  then show "\<exists>st. scan ecg_abs win_size thr 0 \<lparr>time = [], numcross = [], rms = []\<rparr> = Inr st"
    by (simp add: scan_eq)
next
  assume r: "scan ecg_abs win_size thr 0 \<lparr>time = [], numcross = [], rms = []\<rparr> = Inr st"
  show t: "time st = map int (peak_positions ecg_abs (nat win_size) thr 0)"
  proof (cases "0 < win_size")
    case True
    with r show ?thesis by (auto simp: scan_eq peak_positions_starts)
  next
    case False
    with scan_returns_positive [OF r] show ?thesis by (simp add: peak_positions_empty)
  qed
  have "sorted_wrt (<) (map int (peak_positions ecg_abs (nat win_size) thr 0))"
    using peak_positions_sorted [of ecg_abs "nat win_size" thr 0]
    by (simp add: sorted_wrt_map)
  with t show "sorted_wrt (<) (time st)" by simp
qed

lemma peak_positions_example: "peak_positions [2, 3, 0, 0, 1, 5, 4, 0, 0] 3 (1 / 2) 0 = [1, 5]"
  by (simp add: peak_positions.simps window_argmax_def)

theorem scan_is_recurrence_witness:
  "\<exists>st. scan [2, 3, 0, 0, 1, 5, 4, 0, 0] 3 (1 / 2) 0 \<lparr>time = [], numcross = [], rms = []\<rparr> = Inr st
      \<and> time st = [1, 5] \<and> sorted_wrt (<) (time st)"
proof -
  from scan_is_recurrence [where win_size = 3 and thr = "1 / 2"
      and ecg_abs = "[2, 3, 0, 0, 1, 5, 4, 0, 0]"]
  obtain st where
    st: "scan [2, 3, 0, 0, 1, 5, 4, 0, 0] 3 (1 / 2) 0 \<lparr>time = [], numcross = [], rms = []\<rparr> = Inr st"
    by auto
  with scan_is_recurrence [where win_size = 3 and thr = "1 / 2"
      and ecg_abs = "[2, 3, 0, 0, 1, 5, 4, 0, 0]" and st = st]
  have "time st = [1, 5] \<and> sorted_wrt (<) (time st)"
    by (simp add: peak_positions_example)
  with st show ?thesis by blast
qed

section \<open>Crossing counts and the per-candidate sequences\<close>

lemma sum_list_np_diff: "xs \<noteq> [] \<Longrightarrow> sum_list (np_diff xs) = last xs - hd xs"
proof (induction xs)
  case Nil
  then show ?case by simp
next
  case (Cons x xs)
  show ?case
  proof (cases xs)
    case Nil
    then show ?thesis by (simp add: np_diff_def)
  next
    case (Cons y ys)
    with Cons.IH have "sum_list (np_diff xs) = last xs - y" by simp
    with Cons show ?thesis by (simp add: np_diff_def)
  qed
qed

lemma window_nx_telescopes:
  "window \<noteq> [] \<Longrightarrow>
     window_nx window thr =
       (if last window > thr then 1 else 0) - (if hd window > thr then 1 else 0)"
  by (simp add: window_nx_def astype_int_def sum_list_np_diff last_map hd_map)

lemma window_nx_detected:
  "thr < w0 \<Longrightarrow> window_nx (w0 # rest) thr = (if last (w0 # rest) > thr then 0 else - 1)"
  using window_nx_telescopes [of "w0 # rest" thr] by simp

text \<open>
  C3 fails on the code. For the window \<open>[1, 0, 1]\<close> and the threshold 0.5 the mask is
  \<open>[1, 0, 1]\<close>, with one rising edge; the recorded count is the sum of the differences
  of the mask, which is 0. In a scan that detects this window three times the recorded
  counts are \<open>[0, 0, 0]\<close>. That scan is the one \<open>qrs_detector\<close> runs at 6 Hz with
  the threshold fraction 0.5 (window size 3, initial amplitude 1). In general the
  recorded count of a detected window is 0 or -1 (\<open>window_nx_detected\<close>).
\<close>

theorem numcross_is_not_rising_edges:
  "window_nx [1, 0, 1] (1 / 2) = 0 \<and> rising_edges [1, 0, 1] (1 / 2) = 1
   \<and> map_sum id numcross
        (scan [1, 0, 1, 0, 0, 0, 1, 0, 1, 0, 0, 0, 1, 0, 1, 0, 0, 0, 0, 0] 3 (1 / 2) 0
           \<lparr>time = [], numcross = [], rms = []\<rparr>) = Inr [0, 0, 0]
   \<and> win_size_of 6 = 3
   \<and> init_max_of
        (trimmed_ecg_abs [1, 0, 1, 0, 0, 0, 1, 0, 1, 0, 0, 0, 1, 0, 1, 0, 0, 0, 0, 0] 6 0)
        (init_of 6) = Inr 1"
proof -
  have a: "window_nx [1, 0, 1] (1 / 2) = 0"
    by (simp add: window_nx_def np_diff_def astype_int_def)
  have b: "rising_edges [1, 0, 1] (1 / 2) = 1"
    by (simp add: rising_edges_def)
  have c: "window_starts [1, 0, 1, 0, 0, 0, 1, 0, 1, 0, 0, 0, 1, 0, 1, 0, 0, 0, 0, 0] 3 (1 / 2) 0
      = [0, 6, 12]"
    by (simp add: window_starts.simps)
  have d: "map_sum id numcross
        (scan [1, 0, 1, 0, 0, 0, 1, 0, 1, 0, 0, 0, 1, 0, 1, 0, 0, 0, 0, 0] 3 (1 / 2) 0
           \<lparr>time = [], numcross = [], rms = []\<rparr>) = Inr [0, 0, 0]"
    by (simp add: scan_eq c window_nx_def np_diff_def astype_int_def)
  have e: "win_size_of 6 = 3"
    by (simp add: win_size_of_def py_round_def)
  have f: "init_max_of
        (trimmed_ecg_abs [1, 0, 1, 0, 0, 0, 1, 0, 1, 0, 0, 0, 1, 0, 1, 0, 0, 0, 0, 0] 6 0)
        (init_of 6) = Inr 1"
    by (simp add: init_max_of_def trimmed_ecg_abs_def n_samples_start_of_def init_of_def
        py_int_def slice_from_def slice_to_def slice_def clamp_index_def np_max_def np_mean_def)
  from a b d e f show ?thesis by simp
qed

lemma scan_lengths:
  assumes "scan xs w th 0 \<lparr>time = [], numcross = [], rms = []\<rparr> = Inr st"
  shows "length (time st) = length (numcross st) \<and> length (numcross st) = length (rms st)"
proof -
  from scan_returns_positive [OF assms] show ?thesis
  proof
    assume "0 < w"
    with assms show ?thesis by (auto simp: scan_eq)
  next
    assume "xs = [] \<and> w = 0 \<and> st = \<lparr>time = [], numcross = [], rms = []\<rparr>"
    then show ?thesis by simp
  qed
qed

text \<open>
  C9 (as amended). After the scan of a candidate the three sequences have equal
  length. When the scan found a peak they are used as they are. When it found none,
  the peak indices and the window RMS values each get the single entry 0 and the
  crossing counts stay empty.
\<close>

theorem candidate_sequences:
  "scan ecg_abs win_size thr 0 \<lparr>time = [], numcross = [], rms = []\<rparr> = Inr st \<Longrightarrow>
     length (time st) = length (numcross st) \<and> length (numcross st) = length (rms st)
     \<and> (time st = [] \<longrightarrow> fill_empty st = (FloatArray [0], [], [0]))
     \<and> (time st \<noteq> [] \<longrightarrow> fill_empty st = (IntArray (time st), numcross st, rms st))"
  using scan_lengths [of ecg_abs win_size thr st] by (auto simp: fill_empty_def)

lemma window_starts_zeros: "window_starts [0, 0, 0, 0, 0] (Suc 0) 0 0 = []"
  by (simp add: window_starts.simps)

lemma scan_zeros:
  "scan [0, 0, 0, 0, 0] 1 0 0 \<lparr>time = [], numcross = [], rms = []\<rparr>
     = Inr \<lparr>time = [], numcross = [], rms = []\<rparr>"
  by (simp add: scan_eq window_starts_zeros)

lemma zeros_initialisation:
  "win_size_of 2 = 1 \<and> trimmed_ecg_abs (id [0, 0, 0, 0, 0]) 2 0 = [0, 0, 0, 0, 0]
   \<and> init_max_of [0, 0, 0, 0, 0] (init_of 2) = Inr 0"
  by (simp add: win_size_of_def py_round_def trimmed_ecg_abs_def n_samples_start_of_def
      py_int_def slice_from_def init_max_of_def init_of_def slice_to_def slice_def
      clamp_index_def np_max_def np_mean_def)

theorem candidate_sequences_witness:
  "scan [0, 0, 0, 0, 0] 1 0 0 \<lparr>time = [], numcross = [], rms = []\<rparr>
      = Inr \<lparr>time = [], numcross = [], rms = []\<rparr>
   \<and> fill_empty \<lparr>time = [], numcross = [], rms = []\<rparr> = (FloatArray [0], [], [0])"
  using candidate_sequences [OF scan_zeros] scan_zeros by simp

text \<open>
  The claim as written fails. At 2 Hz on a signal of five zeros the detector has the
  window size 1 and the initial amplitude 0, so every threshold is 0; the scan finds no
  peak, and the sequences then have the lengths 1, 0 and 1.
\<close>

theorem sentinel_lengths_differ:
  "win_size_of 2 = 1 \<and> trimmed_ecg_abs (id [0, 0, 0, 0, 0]) 2 0 = [0, 0, 0, 0, 0]
   \<and> init_max_of [0, 0, 0, 0, 0] (init_of 2) = Inr 0
   \<and> scan [0, 0, 0, 0, 0] 1 (0 * 0.6) 0 \<lparr>time = [], numcross = [], rms = []\<rparr>
      = Inr \<lparr>time = [], numcross = [], rms = []\<rparr>
   \<and> (case fill_empty \<lparr>time = [], numcross = [], rms = []\<rparr> of
        (time1, numcross1, rms1) \<Rightarrow>
          arr_len time1 = 1 \<and> length numcross1 = 0 \<and> length rms1 = 1)"
  using zeros_initialisation scan_zeros by (simp add: fill_empty_def)

section \<open>Outlier rejection\<close>

lemma np_where_map: "np_where (map P xs) = filter (\<lambda>k. P (xs ! k)) [0..<length xs]"
  by (auto simp: np_where_def intro: filter_cong)

lemma np_take_in_range:
  "\<forall>k \<in> set idx. k < length xs \<Longrightarrow> np_take xs idx = Inr (map (\<lambda>k. xs ! k) idx)"
  by (simp add: np_take_def list_all_iff)

lemma mask_select_map: "mask_select xs (map f xs) = filter f xs"
  by (induction xs) (auto simp: mask_select_def)

lemma mask_select_map2: "mask_select xs (map f (map g xs)) = filter (\<lambda>x. f (g x)) xs"
  using mask_select_map [of xs "\<lambda>x. f (g x)"] by (simp add: comp_def)

lemma clean_candidate_peaks:
  assumes len: "length (time st) = length (numcross st)" "length (numcross st) = length (rms st)"
    and ne: "time st \<noteq> []"
  shows "clean_candidate st levels n_thresh n_samples_start =
     Inr (IntArray (map (\<lambda>k. time st ! k + n_samples_start)
       (filter (\<lambda>k. rms st ! k < np_mean (rms st) + levels * np_std (rms st)
                    \<and> numcross st ! k < n_thresh) [0..<length (time st)])))"
proof -
  let ?th = "rms_thresh_of (rms st) levels"
  let ?b = "filter (\<lambda>k. rms st ! k < ?th) [0..<length (rms st)]"
  let ?sel = "filter (\<lambda>k. numcross st ! k < n_thresh) ?b"
  from len ne have fe: "fill_empty st = (IntArray (time st), numcross st, rms st)"
    by (auto simp: fill_empty_def)
  have b: "np_where (map (\<lambda>r. r < ?th) (rms st)) = ?b"
    by (rule np_where_map)
  have a: "np_take (numcross st) ?b = Inr (map (\<lambda>k. numcross st ! k) ?b)"
    using len by (intro np_take_in_range) auto
  have s: "mask_select ?b (map (\<lambda>x. x < n_thresh) (map (\<lambda>k. numcross st ! k) ?b)) = ?sel"
    by (rule mask_select_map2)
  have t: "np_take (time st) ?sel = Inr (map (\<lambda>k. time st ! k) ?sel)"
    using len by (intro np_take_in_range) auto
  have "clean_candidate st levels n_thresh n_samples_start =
      (case arr_take (IntArray (time st)) ?sel of
         Inl e \<Rightarrow> Inl e | Inr ce \<Rightarrow> Inr (arr_add ce n_samples_start))"
    unfolding clean_candidate_def fe Let_def prod.case b a sum.case s ..
  also have "arr_take (IntArray (time st)) ?sel = Inr (IntArray (map (\<lambda>k. time st ! k) ?sel))"
    by (simp only: arr_take.simps t map_sum.simps)
  finally have "clean_candidate st levels n_thresh n_samples_start =
      Inr (IntArray (map (\<lambda>x. x + n_samples_start) (map (\<lambda>k. time st ! k) ?sel)))"
    by simp
  moreover have "?sel = filter (\<lambda>k. rms st ! k < np_mean (rms st) + levels * np_std (rms st)
                    \<and> numcross st ! k < n_thresh) [0..<length (time st)]"
    using len by (simp add: rms_thresh_of_def Let_def mult.commute conj_commute)
  ultimately show ?thesis by (simp add: comp_def)
qed

lemma clean_candidate_empty:
  assumes "time st = []" "numcross st = []" "rms st = []"
  shows "clean_candidate st levels n_thresh n_samples_start = Inr (FloatArray [])"
    and "fill_empty st = (FloatArray [0], [], [0])"
    and "rms_thresh_of [0] levels = 0"
proof -
  show fe: "fill_empty st = (FloatArray [0], [], [0])"
    using assms by (simp add: fill_empty_def)
  show th: "rms_thresh_of [0] levels = 0"
    by (simp add: rms_thresh_of_def np_mean_def np_std_def)
  show "clean_candidate st levels n_thresh n_samples_start = Inr (FloatArray [])"
    unfolding clean_candidate_def fe
    by (simp add: Let_def th np_where_def np_take_def mask_select_def)
qed

lemma effective_rates_eq:
  "effective_rates ces n_ecg sfreq = Inr rates \<Longrightarrow>
     rates = map (\<lambda>c. 60 * real (arr_len c) / (real n_ecg / sfreq)) ces"
  by (induction ces arbitrary: rates) (auto simp: py_div_def split: sum.splits if_splits)

lemma effective_rates_total:
  "n_ecg \<noteq> 0 \<Longrightarrow> sfreq \<noteq> 0 \<Longrightarrow>
     effective_rates ces n_ecg sfreq =
       Inr (map (\<lambda>c. 60 * real (arr_len c) / (real n_ecg / sfreq)) ces)"
  by (induction ces) (auto simp: py_div_def)


lemma sqrt_nine: "sqrt 9 = 3"
  using real_sqrt_abs [of 3] by simp



text \<open>
  C10. A candidate whose scan finds no peak gets the entry (index 0, RMS 0); the RMS
  threshold is then 0, the comparison \<open>0 < 0\<close> fails, and the candidate's final event
  list is empty, so the entry never reaches the events the detector returns; the
  heart rate implied by such a candidate is 0.
\<close>

theorem no_peak_candidate:
  "scan ecg_abs win_size (init_max * tv) 0 \<lparr>time = [], numcross = [], rms = []\<rparr> = Inr st \<Longrightarrow>
   time st = [] \<Longrightarrow>
     fill_empty st = (FloatArray [0], [], [0])
     \<and> rms_thresh_of [0] levels = 0
     \<and> run_threshold ecg_abs win_size init_max levels n_thresh n_samples_start tv
          = Inr (FloatArray [])
     \<and> arr_len (FloatArray []) = 0
     \<and> (effective_rates ces n_ecg sfreq = Inr rates \<and> k < length ces
          \<and> ces ! k = FloatArray [] \<longrightarrow> rates ! k = 0)"
proof -
  assume r: "scan ecg_abs win_size (init_max * tv) 0 \<lparr>time = [], numcross = [], rms = []\<rparr> = Inr st"
    and e: "time st = []"
  from scan_lengths [OF r] e have em: "time st = []" "numcross st = []" "rms st = []"
    by auto
  have rt: "run_threshold ecg_abs win_size init_max levels n_thresh n_samples_start tv
          = Inr (FloatArray [])"
    unfolding run_threshold_def Let_def r sum.case
    by (rule clean_candidate_empty(1) [OF em])
  have rate: "rates ! k = 0"
    if "effective_rates ces n_ecg sfreq = Inr rates" "k < length ces" "ces ! k = FloatArray []"
    using effective_rates_eq [OF that(1)] that(2,3) by simp
  from clean_candidate_empty(2,3) [OF em] rt rate show ?thesis by simp
qed

theorem no_peak_candidate_witness:
  "run_threshold [0, 0, 0, 0, 0] 1 0 (5 / 2) 3 0 (3 / 5) = Inr (FloatArray [])
   \<and> effective_rates [FloatArray []] 5 2 = Inr [0]"
proof -
  have s: "scan [0, 0, 0, 0, 0] 1 (0 * (3 / 5)) 0 \<lparr>time = [], numcross = [], rms = []\<rparr>
      = Inr \<lparr>time = [], numcross = [], rms = []\<rparr>"
    using scan_zeros by simp
  have e: "effective_rates [FloatArray []] 5 2 = Inr [0]"
    by (simp add: py_div_def)
  from no_peak_candidate [OF s, where levels = "5 / 2" and n_thresh = 3 and n_samples_start = 0
      and ces = "[FloatArray []]" and n_ecg = 5 and sfreq = 2 and rates = "[0]" and k = 0] e
  show ?thesis by simp
qed

section \<open>Choice of the best candidate\<close>

lemma np_argmin_spec:
  assumes "np_argmin ds = Inr k"
  shows "k < length ds \<and> (\<forall>j < length ds. ds ! k \<le> ds ! j) \<and> (\<forall>j < k. ds ! k < ds ! j)"
proof -
  from assms obtain x r where ds: "ds = x # r"
    by (cases ds) (auto simp: np_argmin_def)
  let ?m = "Min (set ds)"
  from assms ds have k: "k = first_index (\<lambda>v. v = ?m) ds"
    by (simp add: np_argmin_def fold_min_Min)
  have "?m \<in> set ds" using ds by (intro Min_in) auto
  then have ex: "\<exists>v \<in> set ds. v = ?m" by blast
  have lt: "k < length ds" unfolding k by (rule first_index_less [OF ex])
  have at: "ds ! k = ?m" unfolding k by (rule first_index_holds [OF ex])
  have le: "ds ! k \<le> ds ! j" if "j < length ds" for j
    using that at by simp
  have less: "ds ! k < ds ! j" if "j < k" for j
  proof -
    from that have "ds ! j \<noteq> ?m" unfolding k by (rule first_index_least)
    moreover have "ds ! k \<le> ds ! j" using that lt le by simp
    ultimately show ?thesis using at by simp
  qed
  from lt le less show ?thesis by blast
qed

lemma map_nth_filter:
  "map (\<lambda>k. xs ! k) (filter (\<lambda>k. P (xs ! k)) [0..<length xs]) = filter P xs"
proof -
  have "filter P (map (\<lambda>k. xs ! k) [0..<length xs])
      = map (\<lambda>k. xs ! k) (filter (P \<circ> (\<lambda>k. xs ! k)) [0..<length xs])"
    by (rule filter_map)
  then show ?thesis by (simp add: map_nth comp_def)
qed

lemma ideal_rate_is_target: "ideal_rate_of rates = target_rate rates"
proof -
  let ?P = "\<lambda>r::real. r \<le> 160 \<and> r \<ge> 40"
  have w: "np_where (map ?P rates) = filter (\<lambda>k. ?P (rates ! k)) [0..<length rates]"
    by (rule np_where_map)
  have m: "map (\<lambda>k. rates ! k) (np_where (map ?P rates)) = filter ?P rates"
    unfolding w by (rule map_nth_filter)
  have f: "filter ?P rates = filter (\<lambda>r. 40 \<le> r \<and> r \<le> 160) rates"
    by (simp add: conj_commute)
  have l: "(length (np_where (map ?P rates)) > 0) = (filter ?P rates \<noteq> [])"
    using arg_cong [OF m, of length] by (simp del: length_filter_conv_card)
  show ?thesis
    unfolding ideal_rate_of_def target_rate_def Let_def l m f by simp
qed

lemma pick_best_spec:
  assumes "pick_best ces n_ecg sfreq = Inr ev"
  shows "\<exists>k < length ces. ev = ces ! k
     \<and> (\<forall>j < length ces.
          \<bar>implied_rate n_ecg sfreq (ces ! k) - target_rate (map (implied_rate n_ecg sfreq) ces)\<bar>
          \<le> \<bar>implied_rate n_ecg sfreq (ces ! j) - target_rate (map (implied_rate n_ecg sfreq) ces)\<bar>)
     \<and> (\<forall>j < k.
          \<bar>implied_rate n_ecg sfreq (ces ! k) - target_rate (map (implied_rate n_ecg sfreq) ces)\<bar>
          < \<bar>implied_rate n_ecg sfreq (ces ! j) - target_rate (map (implied_rate n_ecg sfreq) ces)\<bar>)"
proof -
  let ?T = "target_rate (map (implied_rate n_ecg sfreq) ces)"
  from assms obtain rates where er: "effective_rates ces n_ecg sfreq = Inr rates"
    by (auto simp: pick_best_def split: sum.splits)
  from effective_rates_eq [OF er] have rates: "rates = map (implied_rate n_ecg sfreq) ces"
    by (simp add: implied_rate_def)
  let ?ds = "map (\<lambda>r. \<bar>r - ?T\<bar>) rates"
  from assms er obtain k where am: "np_argmin ?ds = Inr k" and ev: "ev = ces ! k"
    by (auto simp: pick_best_def Let_def ideal_rate_is_target rates split: sum.splits)
  from np_argmin_spec [OF am] have k: "k < length ?ds"
    and le: "\<And>j. j < length ?ds \<Longrightarrow> ?ds ! k \<le> ?ds ! j"
    and less: "\<And>j. j < k \<Longrightarrow> ?ds ! k < ?ds ! j"
    by blast+
  have len: "length ?ds = length ces" by (simp add: rates)
  have nth: "?ds ! j = \<bar>implied_rate n_ecg sfreq (ces ! j) - ?T\<bar>" if "j < length ces" for j
    using that by (simp add: rates)
  have k': "k < length ces" using k len by simp
  have le': "\<bar>implied_rate n_ecg sfreq (ces ! k) - ?T\<bar>
      \<le> \<bar>implied_rate n_ecg sfreq (ces ! j) - ?T\<bar>" if "j < length ces" for j
    using le [of j] that nth [OF that] nth [OF k'] len by simp
  have less': "\<bar>implied_rate n_ecg sfreq (ces ! k) - ?T\<bar>
      < \<bar>implied_rate n_ecg sfreq (ces ! j) - ?T\<bar>" if "j < k" for j
  proof -
    from that k' have j: "j < length ces" by simp
    from less [OF that] nth [OF j] nth [OF k'] show ?thesis by simp
  qed
  from k' ev le' less' show ?thesis by blast
qed

lemma run_thresholds_spec:
  "run_thresholds xs w im lv nt ns runs acc = Inr ces \<Longrightarrow>
     length ces = length acc + length runs \<and> take (length acc) ces = acc
     \<and> (\<forall>j < length runs. run_threshold xs w im lv nt ns (runs ! j) = Inr (ces ! (length acc + j)))"
proof (induction runs arbitrary: acc)
  case Nil
  then show ?case by simp
next
  case (Cons tv tvs)
  from Cons.prems obtain ce where ce: "run_threshold xs w im lv nt ns tv = Inr ce"
    and rest: "run_thresholds xs w im lv nt ns tvs (acc @ [ce]) = Inr ces"
    by (auto split: sum.splits)
  from Cons.IH [OF rest] have len: "length ces = length acc + 1 + length tvs"
    and tk: "take (length acc + 1) ces = acc @ [ce]"
    and nth: "\<forall>j < length tvs. run_threshold xs w im lv nt ns (tvs ! j)
        = Inr (ces ! (length acc + 1 + j))"
    by simp_all
  from tk have tk': "take (length acc) ces = acc"
    by (metis append_eq_conv_conj length_append_singleton take_add take_all_iff
        Suc_eq_plus1 append.right_neutral le_refl length_take min.absorb2 nat_le_linear take_take)
  from tk len have at: "ces ! length acc = ce"
    by (metis nth_append_length nth_take lessI Suc_eq_plus1)
  have "run_threshold xs w im lv nt ns ((tv # tvs) ! j) = Inr (ces ! (length acc + j))"
    if "j < length (tv # tvs)" for j
  proof (cases j)
    case 0
    with ce at show ?thesis by simp
  next
    case (Suc i)
    with that nth show ?thesis by simp
  qed
  with len tk' show ?case by simp
qed



lemma sqrt_sixteen: "sqrt 16 = 4"
  using real_sqrt_abs [of 4] by simp

lemma scan_example:
  "scan [1, 3, 0, 1, 4, 0] 1 (4 / 3) 0 \<lparr>time = [], numcross = [], rms = []\<rparr>
     = Inr \<lparr>time = [1, 4], numcross = [0, 0], rms = [3, 4]\<rparr>"
proof -
  have ws: "window_starts [1, 3, 0, 1, 4, 0] (Suc 0) (4 / 3) 0 = [1, 4]"
    by (simp add: window_starts.simps)
  show ?thesis
    by (simp add: scan_eq ws window_argmax_def window_nx_def np_diff_def astype_int_def
        window_rms_def sum_squared_def sqrt_nine sqrt_sixteen)
qed

lemma run_threshold_example:
  "run_threshold [1, 3, 0, 1, 4, 0] 1 (8 / 3) (5 / 2) 3 0 (1 / 2) = Inr (IntArray [1, 4])"
proof -
  have m: "np_mean [3, 4] = 7 / 2" by (simp add: np_mean_def)
  have s: "np_std [3, 4] = 1 / 2"
    by (simp add: np_std_def m) (simp add: np_mean_def power2_eq_square real_sqrt_divide)
  have u: "[0..<2] = [0, 1]" by (simp add: upt_rec)
  have "clean_candidate \<lparr>time = [1, 4], numcross = [0, 0], rms = [3, 4]\<rparr> (5 / 2) 3 0
      = Inr (IntArray [1, 4])"
    by (subst clean_candidate_peaks) (simp_all add: m s u)
  then show ?thesis
    by (simp add: run_threshold_def Let_def scan_example)
qed

lemma qrs_detector_example:
  "qrs_detector id 2 [1, 3, 0, 1, 4, 0] (Num (1 / 2)) (5 / 2) 3 0 = Inr (IntArray [1, 4])"
proof -
  have t: "trimmed_ecg_abs (id [1, 3, 0, 1, 4, 0]) 2 0 = [1, 3, 0, 1, 4, 0]"
    by (simp add: trimmed_ecg_abs_def n_samples_start_of_def py_int_def slice_from_def
        clamp_index_def)
  have i: "init_max_of [1, 3, 0, 1, 4, 0] (init_of 2) = Inr (8 / 3)"
    by (simp add: init_max_of_def init_of_def py_int_def slice_to_def slice_def clamp_index_def
        np_max_def np_mean_def)
  have w: "win_size_of 2 = 1" by (simp add: win_size_of_def py_round_def)
  have n: "n_samples_start_of 2 0 = 0" by (simp add: n_samples_start_of_def py_int_def)
  have r: "thresh_runs_of (Num (1 / 2)) = Inr [1 / 2]" by (simp add: thresh_runs_of_def)
  have p: "pick_best [IntArray [1, 4]] (length [1, 3, 0, 1, 4, 0 :: real]) 2
      = Inr (IntArray [1, 4])"
    by (simp add: pick_best_def py_div_def ideal_rate_of_def np_where_def np_median_def
        np_argmin_def Let_def)
  have c: "run_thresholds [1, 3, 0, 1, 4, 0] 1 (8 / 3) (5 / 2) 3 0 [1 / 2] []
      = Inr [IntArray [1, 4]]"
    by (simp add: run_threshold_example)
  show ?thesis
    unfolding qrs_detector_def Let_def t i w n r sum.case c p ..
qed


section \<open>Properties of the event table\<close>

lemma length_assign_slice:
  "assign_slice arr a b vals = Inr arr' \<Longrightarrow> length arr' = length arr"
proof -
  assume r: "assign_slice arr a b vals = Inr arr'"
  let ?lo = "clamp_index (length arr) a" and ?hi = "clamp_index (length arr) b"
  have "?lo \<le> length arr" "?hi \<le> length arr" by (rule clamp_index_le)+
  with r show ?thesis
    by (auto simp: assign_slice_def Let_def split: if_splits)
qed

lemma assign_slice_in_range:
  assumes "off + length vals \<le> length arr"
  shows "assign_slice arr (int off) (int off + int (length vals)) vals
     = Inr (take off arr @ vals @ drop (off + length vals) arr)"
proof -
  have lo: "clamp_index (length arr) (int off) = off"
    using assms by (simp add: clamp_index_def)
  have hi: "clamp_index (length arr) (int off + int (length vals)) = off + length vals"
    using assms by (simp add: clamp_index_def nat_add_distrib)
  show ?thesis by (simp add: assign_slice_def Let_def lo hi)
qed

lemma length_upto_int: "length [a..b - 1] = nat (b - a)"
  by simp

lemma remap_loop_spec:
  "remap_loop segs remap (int off) = Inr (remap', off') \<Longrightarrow>
     off' = int off + int (length (index_map segs)) \<and> length remap' = length remap
     \<and> (nat off' \<le> length remap \<longrightarrow>
          remap' = take off remap @ index_map segs @ drop (nat off') remap)"
proof (induction segs arbitrary: remap off)
  case Nil
  then show ?case by (auto simp: index_map_def)
next
  case (Cons seg rest)
  obtain a b where seg: "seg = (a, b)" by (cases seg)
  define vals where "vals = [a..b - 1]"
  define L where "L = length vals"
  define R where "R = length (index_map rest)"
  from Cons.prems seg have ge: "0 \<le> b - a"
    by (auto simp: Let_def split: if_splits)
  have tl: "b - a = int L" using ge by (simp add: L_def vals_def)
  from Cons.prems seg ge obtain r1 where
    as: "assign_slice remap (int off) (int off + (b - a)) vals = Inr r1"
    and rest: "remap_loop rest r1 (int off + (b - a)) = Inr (remap', off')"
    by (auto simp: Let_def vals_def split: sum.splits if_splits)
  have rest': "remap_loop rest r1 (int (off + L)) = Inr (remap', off')"
    using rest unfolding tl by simp
  from Cons.IH [OF rest'] have
    o: "off' = int (off + L) + int R"
    and l: "length remap' = length r1"
    and c: "nat off' \<le> length r1 \<longrightarrow>
          remap' = take (off + L) r1 @ index_map rest @ drop (nat off') r1"
    unfolding R_def by simp_all
  have lr: "length r1 = length remap" by (rule length_assign_slice [OF as])
  have im: "index_map (seg # rest) = vals @ index_map rest"
    by (simp add: index_map_def seg vals_def)
  have o': "off' = int off + int (length (index_map (seg # rest)))"
    using o by (simp add: im L_def R_def)
  have c': "remap' = take off remap @ index_map (seg # rest) @ drop (nat off') remap"
    if le: "nat off' \<le> length remap"
  proof -
    have no: "nat off' = off + L + R" using o by simp
    from le no have fit: "off + length vals \<le> length remap" by (simp add: L_def)
    have "assign_slice remap (int off) (int off + int (length vals)) vals
        = Inr (take off remap @ vals @ drop (off + length vals) remap)"
      by (rule assign_slice_in_range [OF fit])
    with as have r1: "r1 = take off remap @ vals @ drop (off + L) remap"
      unfolding tl L_def by simp
    from fit have t: "take (off + L) r1 = take off remap @ vals"
      unfolding r1 by (simp add: L_def)
    from fit have d: "drop (nat off') r1 = drop (nat off') remap"
      unfolding r1 no by (simp add: L_def add.commute add.left_commute)
    from c le lr have "remap' = take (off + L) r1 @ index_map rest @ drop (nat off') r1"
      by simp
    then show ?thesis by (simp add: t d im)
  qed
  from o' l lr c' show ?case by simp
qed

lemma index_map_sorted:
  "sorted_wrt (\<lambda>(a, b) (c, d). b \<le> c) segs \<Longrightarrow> sorted_wrt (<) (index_map segs)"
proof (induction segs)
  case Nil
  then show ?case by (simp add: index_map_def)
next
  case (Cons seg rest)
  obtain a b where seg: "seg = (a, b)" by (cases seg)
  have im: "index_map (seg # rest) = [a..b - 1] @ index_map rest"
    by (simp add: index_map_def seg)
  from Cons.prems seg have later: "\<forall>(c, d) \<in> set rest. b \<le> c" by auto
  have "x < y" if "x \<in> set [a..b - 1]" "y \<in> set (index_map rest)" for x y
  proof -
    from that(2) obtain c d where "(c, d) \<in> set rest" "y \<in> set [c..d - 1]"
      by (auto simp: index_map_def)
    with later that(1) show ?thesis by auto
  qed
  moreover have "sorted_wrt (<) [a..b - 1]"
    by (simp add: sorted_wrt_upto strict_sorted_iff [symmetric] del: upto.simps)
  moreover from Cons have "sorted_wrt (<) (index_map rest)" by simp
  ultimately show ?case unfolding im by (simp add: sorted_wrt_append del: upto.simps)
qed

lemma collect_spec:
  "collect rs = Inr vs \<Longrightarrow> length vs = length rs \<and> (\<forall>i < length rs. rs ! i = Inr (vs ! i))"
proof (induction rs arbitrary: vs)
  case Nil
  then show ?case by simp
next
  case (Cons r rs)
  from Cons.prems obtain v vs' where r: "r = Inr v" and c: "collect rs = Inr vs'"
    and vs: "vs = v # vs'"
    by (auto split: sum.splits)
  from Cons.IH [OF c] have "length vs' = length rs" "\<forall>i < length rs. rs ! i = Inr (vs' ! i)"
    by simp_all
  with r vs show ?case by (auto simp: nth_Cons split: nat.splits)
qed

lemma scan_time:
  assumes "scan xs w th 0 \<lparr>time = [], numcross = [], rms = []\<rparr> = Inr st"
  shows "time st = map int (peak_positions xs (nat w) th 0)"
proof -
  from scan_returns_positive [OF assms] show ?thesis
  proof
    assume "0 < w"
    with assms show ?thesis by (auto simp: scan_eq peak_positions_starts)
  next
    assume "xs = [] \<and> w = 0 \<and> st = \<lparr>time = [], numcross = [], rms = []\<rparr>"
    then show ?thesis by (simp add: peak_positions_empty)
  qed
qed

lemma peak_positions_bound:
  assumes "p \<in> set (peak_positions xs w th i)"
  shows "p < length xs"
proof -
  from assms obtain j where j: "j \<in> set (window_starts xs w th i)"
    and p: "p = j + window_argmax (take w (drop j xs))"
    by (auto simp: peak_positions_starts)
  from window_starts_bounds [OF j] have b: "j + w < length xs" "0 < w" by simp_all
  then have "take w (drop j xs) \<noteq> []" by simp
  from window_argmax_less [OF this] b have "window_argmax (take w (drop j xs)) < w" by simp
  with p b show ?thesis by simp
qed

lemma sorted_wrt_map_nth_filter:
  assumes "sorted_wrt (<) (ts :: int list)"
  shows "sorted_wrt (<) (map (\<lambda>k. ts ! k + n) (filter P [0..<length ts]))"
proof -
  have "sorted_wrt (<) (filter P [0..<length ts])"
    by (intro sorted_wrt_filter) (simp add: sorted_wrt_upt strict_sorted_iff [symmetric])
  then have "sorted_wrt (\<lambda>a b. ts ! a + n < ts ! b + n) (filter P [0..<length ts])"
  proof (rule sorted_wrt_mono_rel [rotated])
    fix a b
    assume "a \<in> set (filter P [0..<length ts])" "b \<in> set (filter P [0..<length ts])" "a < b"
    then have "a < b" "b < length ts" by auto
    with assms show "ts ! a + n < ts ! b + n"
      by (simp add: sorted_wrt_nth_less)
  qed
  then show ?thesis by (simp add: sorted_wrt_map)
qed

lemma run_threshold_shape:
  assumes "run_threshold xs w im lv nt n tv = Inr ce"
  shows "ce = FloatArray [] \<or>
     (\<exists>es. ce = IntArray es \<and> sorted_wrt (<) es
        \<and> (\<forall>e \<in> set es. n \<le> e \<and> e < n + int (length xs)))"
proof -
  from assms obtain st where
    sc: "scan xs w (im * tv) 0 \<lparr>time = [], numcross = [], rms = []\<rparr> = Inr st"
    and cc: "clean_candidate st lv nt n = Inr ce"
    by (auto simp: run_threshold_def Let_def split: sum.splits)
  from scan_lengths [OF sc] have len: "length (time st) = length (numcross st)"
    "length (numcross st) = length (rms st)" by simp_all
  have tm: "time st = map int (peak_positions xs (nat w) (im * tv) 0)"
    by (rule scan_time [OF sc])
  show ?thesis
  proof (cases "time st = []")
    case True
    with len have "numcross st = []" "rms st = []" by auto
    from clean_candidate_empty(1) [OF True this] cc show ?thesis by simp
  next
    case False
    let ?P = "\<lambda>k. rms st ! k < np_mean (rms st) + lv * np_std (rms st) \<and> numcross st ! k < nt"
    let ?es = "map (\<lambda>k. time st ! k + n) (filter ?P [0..<length (time st)])"
    from clean_candidate_peaks [OF len False] cc have ce: "ce = IntArray ?es" by simp
    have st: "sorted_wrt (<) (time st)"
      unfolding tm using peak_positions_sorted [of xs "nat w" "im * tv" 0]
      by (simp add: sorted_wrt_map)
    have so: "sorted_wrt (<) ?es" by (rule sorted_wrt_map_nth_filter [OF st])
    have bd: "n \<le> e \<and> e < n + int (length xs)" if "e \<in> set ?es" for e
    proof -
      from that obtain k where k: "k < length (time st)" and e: "e = time st ! k + n" by auto
      from k have "time st ! k \<in> set (time st)" by simp
      then obtain p where "p \<in> set (peak_positions xs (nat w) (im * tv) 0)"
        and "time st ! k = int p" unfolding tm by auto
      with peak_positions_bound e show ?thesis by fastforce
    qed
    from ce so bd show ?thesis by blast
  qed
qed

lemma qrs_detector_shape:
  assumes "qrs_detector filt sfreq ecg tv lv nt tstart = Inr ev"
  shows "ev = FloatArray [] \<or>
     (\<exists>es. ev = IntArray es \<and> sorted_wrt (<) es
        \<and> (\<forall>e \<in> set es. n_samples_start_of sfreq tstart \<le> e
              \<and> e < n_samples_start_of sfreq tstart
                    + int (length (trimmed_ecg_abs (filt ecg) sfreq tstart))))"
proof -
  let ?xs = "trimmed_ecg_abs (filt ecg) sfreq tstart"
  from assms obtain init_max runs ces where
    rt: "run_thresholds ?xs (win_size_of sfreq) init_max lv nt
           (n_samples_start_of sfreq tstart) runs [] = Inr ces"
    and pb: "pick_best ces (length ecg) sfreq = Inr ev"
    by (auto simp: qrs_detector_def Let_def split: sum.splits)
  from pick_best_spec [OF pb] obtain k where k: "k < length ces" and ev: "ev = ces ! k"
    by blast
  from run_thresholds_spec [OF rt] k have
    "run_threshold ?xs (win_size_of sfreq) init_max lv nt
       (n_samples_start_of sfreq tstart) (runs ! k) = Inr (ces ! k)"
    by simp
  from run_threshold_shape [OF this] ev show ?thesis by simp
qed

lemma trimmed_negative_start:
  "n_samples_start_of sfreq tstart < 0 \<Longrightarrow>
     n_samples_start_of sfreq tstart + int (length (trimmed_ecg_abs ys sfreq tstart)) \<le> 0"
  by (auto simp: trimmed_ecg_abs_def slice_from_def clamp_index_def)

lemma py_index_sorted:
  assumes arr: "sorted_wrt (<) (arr :: int list)"
    and es: "sorted_wrt (<) es"
    and sign: "(\<forall>e \<in> set es. 0 \<le> e) \<or> (\<forall>e \<in> set es. e < 0)"
    and c: "collect (map (py_index arr) es) = Inr mapped"
  shows "sorted_wrt (<) mapped"
proof -
  from collect_spec [OF c] have len: "length mapped = length es"
    and at: "\<And>i. i < length es \<Longrightarrow> py_index arr (es ! i) = Inr (mapped ! i)"
    by simp_all
  have "mapped ! i < mapped ! j" if ij: "i < j" and j: "j < length mapped" for i j
  proof -
    from ij j len have i: "i < length es" and j': "j < length es" by simp_all
    from es ij j' have lt: "es ! i < es ! j" by (simp add: sorted_wrt_nth_less)
    from i j' have mem: "es ! i \<in> set es" "es ! j \<in> set es" by simp_all
    from sign show ?thesis
    proof
      assume "\<forall>e \<in> set es. 0 \<le> e"
      with mem have nn: "0 \<le> es ! i" "0 \<le> es ! j" by simp_all
      from at [OF i] nn have mi: "mapped ! i = arr ! nat (es ! i)"
        by (auto simp: py_index_def Let_def split: if_splits)
      from at [OF j'] nn have mj: "mapped ! j = arr ! nat (es ! j)"
        and b: "nat (es ! j) < length arr"
        by (auto simp: py_index_def Let_def split: if_splits)
      from lt nn have "nat (es ! i) < nat (es ! j)" by simp
      with arr b show ?thesis unfolding mi mj by (simp add: sorted_wrt_nth_less)
    next
      assume "\<forall>e \<in> set es. e < 0"
      with mem have ng: "es ! i < 0" "es ! j < 0" by simp_all
      from at [OF i] ng have mi: "mapped ! i = arr ! nat (int (length arr) + es ! i)"
        and lo: "- int (length arr) \<le> es ! i"
        by (auto simp: py_index_def Let_def split: if_splits)
      from at [OF j'] ng have mj: "mapped ! j = arr ! nat (int (length arr) + es ! j)"
        and loj: "- int (length arr) \<le> es ! j"
        by (auto simp: py_index_def Let_def split: if_splits)
      from lt lo have "nat (int (length arr) + es ! i) < nat (int (length arr) + es ! j)"
        by simp
      moreover from ng loj have "nat (int (length arr) + es ! j) < length arr" by linarith
      ultimately show ?thesis using arr unfolding mi mj by (simp add: sorted_wrt_nth_less)
    qed
  qed
  then show ?thesis by (simp add: sorted_wrt_iff_nth_less)
qed

text \<open>
  C7. With ordered, non-overlapping segments, whenever \<open>find_ecg_events\<close> returns a
  table, the detector returned integer positions of the concatenated signal, the table
  has one row per position, each row is (the index map at that position plus
  \<open>first_samp\<close>, 0, the event code), and the sample indices of the rows are strictly
  increasing.
\<close>

theorem event_table:
  "sorted_wrt (\<lambda>(a, b) (c, d). b \<le> c) segments \<Longrightarrow>
   find_ecg_events seg_filt qrs_filt junk ecg sfreq first_samp segments event_id tstart thr
     = Inr (table, average_pulse) \<Longrightarrow>
   \<exists>es. qrs_detector qrs_filt sfreq
           (concat (map (\<lambda>(start, stop). seg_filt (slice ecg start stop)) segments))
           thr 2.5 3 tstart = Inr (IntArray es)
      \<and> length table = length es
      \<and> (\<forall>i < length es. \<exists>v. py_index (index_map segments) (es ! i) = Inr v
            \<and> table ! i = (v + first_samp, 0, event_id))
      \<and> sorted_wrt (<) (map fst table)"
proof -
  assume segs: "sorted_wrt (\<lambda>(a, b) (c, d). b \<le> c) segments"
    and f: "find_ecg_events seg_filt qrs_filt junk ecg sfreq first_samp segments event_id
       tstart thr = Inr (table, average_pulse)"
  let ?ecg = "concat (map (\<lambda>(start, stop). seg_filt (slice ecg start stop)) segments)"
  from f have ne: "segments \<noteq> []"
    by (auto simp: find_ecg_events_def)
  then obtain seg rest where sr: "segments = seg # rest" by (cases segments) auto
  from f obtain ev remap offset mapped where
    q: "qrs_detector qrs_filt sfreq ?ecg thr 2.5 3 tstart = Inr ev"
    and rl: "remap_loop segments (np_empty junk (length ?ecg)) 0 = Inr (remap, offset)"
    and off: "offset = int (length ?ecg)"
    and ib: "index_by remap ev = Inr mapped"
    and tb: "table = map (\<lambda>e. (e + first_samp, 0, event_id)) mapped"
    unfolding find_ecg_events_def sr list.case Let_def
    by (auto split: sum.splits if_splits prod.splits)
  from ib obtain es where ev: "ev = IntArray es"
    and c: "collect (map (py_index remap) es) = Inr mapped"
    by (cases ev) (auto simp: index_by_def)
  have rl0: "remap_loop segments (np_empty junk (length ?ecg)) (int 0) = Inr (remap, offset)"
    using rl by simp
  from remap_loop_spec [OF rl0] off have rm: "remap = index_map segments"
    by (simp add: np_empty_def)
  from collect_spec [OF c] have len: "length mapped = length es"
    and at: "\<And>i. i < length es \<Longrightarrow> py_index remap (es ! i) = Inr (mapped ! i)"
    by simp_all
  have rows: "\<exists>v. py_index (index_map segments) (es ! i) = Inr v
            \<and> table ! i = (v + first_samp, 0, event_id)" if "i < length es" for i
    using at [OF that] that len by (simp add: rm tb)
  from qrs_detector_shape [OF q] ev have es: "sorted_wrt (<) es"
    and bd: "\<forall>e \<in> set es. n_samples_start_of sfreq tstart \<le> e
              \<and> e < n_samples_start_of sfreq tstart
                    + int (length (trimmed_ecg_abs (qrs_filt ?ecg) sfreq tstart))"
    by auto
  have sign: "(\<forall>e \<in> set es. 0 \<le> e) \<or> (\<forall>e \<in> set es. e < 0)"
  proof (cases "n_samples_start_of sfreq tstart < 0")
    case True
    from trimmed_negative_start [OF True, of "qrs_filt ?ecg"] bd
    have "\<forall>e \<in> set es. e < 0" by fastforce
    then show ?thesis ..
  next
    case False
    with bd have "\<forall>e \<in> set es. 0 \<le> e" by fastforce
    then show ?thesis ..
  qed
  have "sorted_wrt (<) remap" unfolding rm by (rule index_map_sorted [OF segs])
  from py_index_sorted [OF this es sign c] have "sorted_wrt (<) mapped" .
  then have so: "sorted_wrt (<) (map fst table)"
    by (simp add: tb sorted_wrt_map comp_def)
  from q ev len rows so tb show ?thesis by auto
qed


lemma remap_loop_example:
  "remap_loop [(1, 4), (6, 9)] [0, 0, 0, 0, 0, 0] 0 = Inr ([1, 2, 3, 6, 7, 8], 6)"
proof -
  have u1: "[1..3] = [1, 2, 3 :: int]" by (simp add: upto.simps)
  have u2: "[6..8] = [6, 7, 8 :: int]" by (simp add: upto.simps)
  have a1: "assign_slice [0, 0, 0, 0, 0, 0] 0 3 [1, 2, 3] = Inr [1, 2, 3, 0, 0, 0]"
    by (simp add: assign_slice_def clamp_index_def Let_def)
  have a2: "assign_slice [1, 2, 3, 0, 0, 0] 3 6 [6, 7, 8] = Inr [1, 2, 3, 6, 7, 8]"
    by (simp add: assign_slice_def clamp_index_def Let_def)
  show ?thesis by (simp add: Let_def u1 u2 a1 a2)
qed

lemma find_ecg_events_example:
  "find_ecg_events id id (\<lambda>k. 0) [9, 1, 3, 0, 9, 9, 1, 4, 0] 2 100 [(1, 4), (6, 9)] 999 0
     (Num (1 / 2)) = Inr ([(102, 0, 999), (107, 0, 999)], 40)"
proof -
  have c: "concat (map (\<lambda>(start, stop). id (slice [9, 1, 3, 0, 9, 9, 1, 4, 0 :: real] start stop))
      [(1, 4), (6, 9)]) = [1, 3, 0, 1, 4, 0]"
    by (simp add: slice_def clamp_index_def Let_def)
  have q: "qrs_detector id 2 [1, 3, 0, 1, 4, 0] (Num (1 / 2)) 2.5 3 0 = Inr (IntArray [1, 4])"
    using qrs_detector_example by simp
  have e: "np_empty (\<lambda>k. 0) (length [1, 3, 0, 1, 4, 0 :: real]) = [0, 0, 0, 0, 0, 0]"
    by (simp add: np_empty_def upt_rec)
  have i: "index_by [1, 2, 3, 6, 7, 8] (IntArray [1, 4]) = Inr [2, 7]"
    by (simp add: index_by_def py_index_def Let_def)
  have p1: "py_div (real (length [1, 3, 0, 1, 4, 0 :: real])) 2 = Inr 3"
    by (simp add: py_div_def)
  have p2: "py_div (real (length [2, 7 :: int])) ((3 - 0) / 60) = Inr 40"
    by (simp add: py_div_def)
  have "find_ecg_events id id (\<lambda>k. 0) [9, 1, 3, 0, 9, 9, 1, 4, 0] 2 100 [(1, 4), (6, 9)] 999 0
     (Num (1 / 2)) = Inr (map (\<lambda>e. (e + 100, 0, 999)) [2, 7], 40)"
    unfolding find_ecg_events_def list.case Let_def c q e remap_loop_example sum.case
      prod.case i p1 p2
    by simp
  then show ?thesis by simp
qed

theorem event_table_witness:
  "find_ecg_events id id (\<lambda>k. 0) [9, 1, 3, 0, 9, 9, 1, 4, 0] 2 100 [(1, 4), (6, 9)] 999 0
     (Num (1 / 2)) = Inr ([(102, 0, 999), (107, 0, 999)], 40)
   \<and> (\<exists>es. length es = 2
        \<and> py_index (index_map [(1, 4), (6, 9)]) (es ! 0) = Inr 2
        \<and> py_index (index_map [(1, 4), (6, 9)]) (es ! 1) = Inr 7)
   \<and> sorted_wrt (<) (map fst [(102, 0, 999), (107 :: int, 0 :: int, 999 :: int)])"
proof -
  have s: "sorted_wrt (\<lambda>(a, b) (c, d). b \<le> c) [(1 :: int, 4 :: int), (6, 9)]" by simp
  note t = event_table [OF s find_ecg_events_example]
  from t obtain es where
    len: "length [(102 :: int, 0 :: int, 999 :: int), (107, 0, 999)] = length es"
    and rows: "\<forall>i < length es. \<exists>v. py_index (index_map [(1, 4), (6, 9)]) (es ! i) = Inr v
            \<and> [(102, 0, 999), (107, 0, 999)] ! i = (v + 100, 0 :: int, 999 :: int)"
    and so: "sorted_wrt (<) (map fst [(102 :: int, 0 :: int, 999 :: int), (107, 0, 999)])"
    by blast
  from len have l2: "length es = 2" by simp
  from rows l2 have "0 < length es" "1 < length es" by simp_all
  with rows obtain v0 v1 where
    v0: "py_index (index_map [(1, 4), (6, 9)]) (es ! 0) = Inr v0"
      "[(102, 0, 999), (107, 0, 999)] ! 0 = (v0 + 100, 0 :: int, 999 :: int)"
    and v1: "py_index (index_map [(1, 4), (6, 9)]) (es ! 1) = Inr v1"
      "[(102, 0, 999), (107, 0, 999)] ! 1 = (v1 + 100, 0 :: int, 999 :: int)"
    by blast
  from v0(2) have "v0 = 2" by simp
  moreover from v1(2) have "v1 = 7" by simp
  ultimately have r: "py_index (index_map [(1, 4), (6, 9)]) (es ! 0) = Inr 2"
    "py_index (index_map [(1, 4), (6, 9)]) (es ! 1) = Inr 7"
    using v0(1) v1(1) by simp_all
  from l2 r have "\<exists>es. length es = 2
        \<and> py_index (index_map [(1, 4), (6, 9)]) (es ! 0) = Inr 2
        \<and> py_index (index_map [(1, 4), (6, 9)]) (es ! 1) = Inr 7" by blast
  with find_ecg_events_example so show ?thesis by (intro conjI)
qed

end
